theory Spec2Isabelle
  imports Main "HOL-Library.Word"
begin

section \<open>The systemd D-Bus binding: package dbus (dbus.go)\<close>

text \<open>
  The package has two stateful parts. The job correlator (\<open>subscriberT\<close>,
  \<open>initSubscriber\<close>, \<open>startJob\<close>, \<open>runJob\<close>) matches \<open>JobRemoved\<close> signals to the
  callers that started the jobs. The subscription poller (\<open>SubscribeUnitsCustom\<close>)
  turns the list of all units into a stream of changes. Both are embedded below, the
  poller first.

  What lies outside the repository is an input of the model: the reply of a D-Bus method
  call (\<open>sysobj.Call(...).Store(...)\<close>), the signals the connection delivers, and the
  values \<open>dbus.Store\<close> decodes from a signal body.
\<close>

subsection \<open>Data\<close>

type_synonym ObjectPath = string

text \<open>A Go \<open>error\<close> value; only its identity matters here.\<close>

datatype error = Error string

record UnitStatus =
  Name :: string
  Description :: string
  LoadState :: string
  ActiveState :: string
  SubState :: string
  Followed :: string
  Path :: ObjectPath
  JobId :: "32 word"
  JobType :: string
  JobPath :: ObjectPath

text \<open>
  \<open>map[string]*UnitStatus\<close>. In \<open>old\<close> and \<open>cur\<close> every value is the address of an
  element of a freshly built slice, never nil, and nothing writes through it afterwards:
  a snapshot maps a name to the record. In \<open>changed\<close> a value may be nil (a deleted
  unit): a delta maps a name to \<open>Some u\<close> or to \<open>None\<close>, the nil pointer.
\<close>

type_synonym snapshot = "string \<rightharpoonup> UnitStatus"
type_synonym delta = "string \<rightharpoonup> UnitStatus option"

subsection \<open>The subscription poller: \<open>SubscribeUnitsCustom\<close>\<close>

text \<open>
  \<^verbatim>\<open>
  cur := make(map[string]*UnitStatus)
  for i := range units {
      cur[units[i].Name] = &units[i]
  }
  \<close>
  A later unit of the same name replaces an earlier one.
\<close>

fun index_units :: "UnitStatus list \<Rightarrow> snapshot \<Rightarrow> snapshot" where
  "index_units [] cur = cur"
| "index_units (u # us) cur = index_units us (cur(Name u \<mapsto> u))"

text \<open>
  \<^verbatim>\<open>
  changed := make(map[string]*UnitStatus)
  for n, u := range cur {
      if oldU, ok := old[n]; !ok || isChanged(oldU, u) {
          changed[n] = u
      }
      delete(old, n)
  }
  \<close>
  A \<open>range\<close> over a Go map visits each key once, in an order the language leaves open.
  The order is the list \<open>ns\<close>; a name that is not a key of \<open>cur\<close> is never visited.
  The loop state is the pair of \<open>old\<close> and \<open>changed\<close>. \<open>isChanged\<close> is called only
  when the name is in \<open>old\<close>, with the old record first.
\<close>

fun add_changed ::
  "(UnitStatus \<Rightarrow> UnitStatus \<Rightarrow> bool) \<Rightarrow> snapshot \<Rightarrow> string list \<Rightarrow> snapshot \<times> delta
     \<Rightarrow> snapshot \<times> delta" where
  "add_changed isChanged cur [] (old, changed) = (old, changed)"
| "add_changed isChanged cur (n # ns) (old, changed) =
     (case cur n of
        None \<Rightarrow> add_changed isChanged cur ns (old, changed)
      | Some u \<Rightarrow>
          add_changed isChanged cur ns
            (old(n := None),
             (case old n of
                None \<Rightarrow> changed(n \<mapsto> Some u)
              | Some oldU \<Rightarrow> if isChanged oldU u then changed(n \<mapsto> Some u) else changed)))"

text \<open>
  \<^verbatim>\<open>
  for oldN := range old {
      changed[oldN] = nil
  }
  \<close>
\<close>

fun add_deleted :: "string list \<Rightarrow> delta \<Rightarrow> delta" where
  "add_deleted [] changed = changed"
| "add_deleted (oldN # ns) changed = add_deleted ns (changed(oldN \<mapsto> None))"

text \<open>
  \<open>keys m\<close> is the order in which a \<open>range\<close> statement visits the map \<open>m\<close>; a legal
  order lists every key of the map once.
\<close>

definition range_order :: "(snapshot \<Rightarrow> string list) \<Rightarrow> snapshot \<Rightarrow> bool" where
  "range_order keys m = (distinct (keys m) \<and> set (keys m) = dom m)"

text \<open>The two loops together: the map \<open>changed\<close> that one cycle sends.\<close>

definition changed_units ::
  "(UnitStatus \<Rightarrow> UnitStatus \<Rightarrow> bool) \<Rightarrow> (snapshot \<Rightarrow> string list) \<Rightarrow> snapshot \<Rightarrow> snapshot
     \<Rightarrow> delta" where
  "changed_units isChanged keys old cur =
     (case add_changed isChanged cur (keys cur) (old, Map.empty) of
        (old', changed) \<Rightarrow> add_deleted (keys old') changed)"

text \<open>
  The state of the goroutine started by \<open>SubscribeUnitsCustom\<close>: the local \<open>old\<close>, and
  for each of the two channels the values sent on it so far, oldest first. A send
  completes when the consumer takes the value (or the buffer has room); the model
  records the send and leaves the waiting and the timer out.
\<close>

record poller =
  old :: snapshot
  statusChan :: "delta list"
  errChan :: "error list"

text \<open>
  One iteration of the \<open>for\<close> loop. \<open>fetched\<close> is what \<open>ListUnits()\<close> returned in this
  iteration: \<open>Inl err\<close> or \<open>Inr units\<close>.
  \<^verbatim>\<open>
  units, err := ListUnits()
  if err == nil {
      ... cur, changed ...
      old = cur
      statusChan <- changed
  } else {
      errChan <- err
  }
  \<close>
\<close>

definition poll_cycle ::
  "(UnitStatus \<Rightarrow> UnitStatus \<Rightarrow> bool) \<Rightarrow> (snapshot \<Rightarrow> string list) \<Rightarrow> error + UnitStatus list
     \<Rightarrow> poller \<Rightarrow> poller" where
  "poll_cycle isChanged keys fetched s =
     (case fetched of
        Inr units \<Rightarrow>
          (let cur = index_units units Map.empty;
               changed = changed_units isChanged keys (old s) cur
           in s\<lparr>old := cur, statusChan := statusChan s @ [changed]\<rparr>)
      | Inl err \<Rightarrow> s\<lparr>errChan := errChan s @ [err]\<rparr>)"

text \<open>
  The loop never ends by itself; it is run here for the cycles whose fetch results (and
  range orders) are given.
\<close>

fun poll_cycles ::
  "(UnitStatus \<Rightarrow> UnitStatus \<Rightarrow> bool)
     \<Rightarrow> ((snapshot \<Rightarrow> string list) \<times> (error + UnitStatus list)) list \<Rightarrow> poller \<Rightarrow> poller" where
  "poll_cycles isChanged [] s = s"
| "poll_cycles isChanged ((keys, fetched) # cs) s =
     poll_cycles isChanged cs (poll_cycle isChanged keys fetched s)"

text \<open>\<open>SubscribeUnitsCustom\<close> starts the loop with an empty \<open>old\<close> and two new channels.\<close>

definition SubscribeUnitsCustom :: poller where
  "SubscribeUnitsCustom = \<lparr>old = Map.empty, statusChan = [], errChan = []\<rparr>"

text \<open>\<open>SubscribeUnits\<close> passes \<open>func(u1, u2 *UnitStatus) bool { return *u1 != *u2 }\<close>.\<close>

definition SubscribeUnits_isChanged :: "UnitStatus \<Rightarrow> UnitStatus \<Rightarrow> bool" where
  "SubscribeUnits_isChanged u1 u2 = (u1 \<noteq> u2)"

text \<open>
  The change detector in the words of the specification, for comparison with the code:
  a name of \<open>current\<close> that is absent from \<open>previous\<close>, or whose records are not
  \<open>equal\<close>, maps to its current record; a name of \<open>previous\<close> absent from \<open>current\<close>
  maps to the absence marker; any other name has no entry.
\<close>

definition diff_spec ::
  "snapshot \<Rightarrow> snapshot \<Rightarrow> (UnitStatus \<Rightarrow> UnitStatus \<Rightarrow> bool) \<Rightarrow> delta" where
  "diff_spec previous current equal =
     (\<lambda>name.
        case current name of
          Some c \<Rightarrow>
            (case previous name of
               None \<Rightarrow> Some (Some c)
             | Some p \<Rightarrow> if \<not> equal p c then Some (Some c) else None)
        | None \<Rightarrow>
            (case previous name of
               Some p \<Rightarrow> Some None
             | None \<Rightarrow> None))"

subsection \<open>The job correlator: channels\<close>

text \<open>
  A channel of strings made by \<open>make(chan string, n)\<close>: its capacity, every value sent
  on it so far (oldest first) and how many of them have been received. The values
  waiting in its buffer are the sent ones not yet received.
\<close>

record chan =
  cap :: nat
  sent :: "string list"
  recvd :: nat

definition buffered :: "chan \<Rightarrow> string list" where
  "buffered c = drop (recvd c) (sent c)"

text \<open>
  A channel value is a reference; \<open>chans\<close> maps the references handed out so far
  (\<open>0 .. nchans - 1\<close>) to the channels. \<open>jobs\<close> is \<open>subscriber.jobs\<close>. The mutex
  \<open>subscriber.jobsLock\<close> is held by \<open>startJob\<close> from its first statement to its
  return, and by the listener from the lookup to the end of the send: the two bodies are
  steps of the model that do not interleave. The listener can wait inside its locked
  region, at \<open>out <- result\<close> on a full channel; \<open>blocked\<close> then holds the channel and
  the value, and the mutex stays held: the mutex is held between two steps exactly when
  \<open>blocked\<close> is not \<open>None\<close>.
\<close>

type_synonym chan_ref = nat

record subscriberT =
  jobs :: "ObjectPath \<rightharpoonup> chan_ref"
  chans :: "chan_ref \<Rightarrow> chan"
  nchans :: nat
  blocked :: "(chan_ref \<times> string) option"

definition managerInterface :: string where
  "managerInterface = ''org.freedesktop.systemd1.Manager''"

text \<open>
  A \<open>*dbus.Signal\<close> is \<open>None\<close> (nil) or a signal with its name and body. The body is
  kept as the four values that \<open>dbus.Store(signal.Body, &id, &job, &unit, &result)\<close>
  leaves in \<open>id\<close>, \<open>job\<close>, \<open>unit\<close> and \<open>result\<close>. The field \<open>Name\<close> of the signal
  is \<open>SignalName\<close> here, since \<open>UnitStatus\<close> has a field \<open>Name\<close> too.
\<close>

record Signal =
  SignalName :: string
  Body :: "32 word \<times> ObjectPath \<times> string \<times> string"

text \<open>\<open>make(chan string, n)\<close>: a new, empty channel.\<close>

definition make_chan :: "nat \<Rightarrow> subscriberT \<Rightarrow> chan_ref \<times> subscriberT" where
  "make_chan n s =
     (nchans s,
      s\<lparr>chans := (chans s)(nchans s := \<lparr>cap = n, sent = [], recvd = 0\<rparr>),
        nchans := Suc (nchans s)\<rparr>)"

text \<open>
  \<open>out <- result\<close> in the listener: the value enters the buffer when there is room;
  otherwise the listener waits.
\<close>

definition send :: "chan_ref \<Rightarrow> string \<Rightarrow> subscriberT \<Rightarrow> subscriberT" where
  "send out v s =
     (if length (buffered (chans s out)) < cap (chans s out)
      then s\<lparr>chans := (chans s)(out := (chans s out)\<lparr>sent := sent (chans s out) @ [v]\<rparr>)\<rparr>
      else s\<lparr>blocked := Some (out, v)\<rparr>)"

text \<open>
  \<open><-respCh\<close>: \<open>None\<close> when the buffer is empty (the receiver waits); otherwise the
  oldest buffered value. A listener waiting to send on this channel then completes its
  send and goes on to unlock.
\<close>

definition recv :: "chan_ref \<Rightarrow> subscriberT \<Rightarrow> (string \<times> subscriberT) option" where
  "recv c s =
     (case buffered (chans s c) of
        [] \<Rightarrow> None
      | v # _ \<Rightarrow>
          (let s1 = s\<lparr>chans := (chans s)(c := (chans s c)\<lparr>recvd := Suc (recvd (chans s c))\<rparr>)\<rparr>
           in Some (v,
                case blocked s1 of
                  None \<Rightarrow> s1
                | Some (out, w) \<Rightarrow>
                    if out = c
                    then s1\<lparr>chans := (chans s1)(c := (chans s1 c)\<lparr>sent := sent (chans s1 c) @ [w]\<rparr>),
                            blocked := None\<rparr>
                    else s1)))"

subsection \<open>The job correlator: \<open>initSubscriber\<close>, the listener, \<open>startJob\<close>\<close>

text \<open>
  \<open>initSubscriber\<close>: \<open>s.jobs = make(map[dbus.ObjectPath]chan string)\<close>; the listener
  goroutine starts, waiting for its first signal. No job channel exists yet. (\<open>init\<close>
  calls \<open>initSubscriber\<close> once the connection is set up; an execution below starts
  from there.)
\<close>

definition initSubscriber :: subscriberT where
  "initSubscriber =
     \<lparr>jobs = Map.empty, chans = (\<lambda>_. \<lparr>cap = 0, sent = [], recvd = 0\<rparr>), nchans = 0,
      blocked = None\<rparr>"

text \<open>
  One iteration of the listener's loop, for the value \<open>signal\<close> it read from its channel.
  \<^verbatim>\<open>
  signal := <-ch
  if signal == nil {
      continue
  }
  switch signal.Name {
  case managerInterface + ".JobRemoved":
      ...
      dbus.Store(signal.Body, &id, &job, &unit, &result)
      s.jobsLock.Lock()
      out, ok := s.jobs[job]
      if ok {
          out <- result
      }
      s.jobsLock.Unlock()
  }
  \<close>
\<close>

definition listener :: "Signal option \<Rightarrow> subscriberT \<Rightarrow> subscriberT" where
  "listener signal s =
     (case signal of
        None \<Rightarrow> s
      | Some sg \<Rightarrow>
          if SignalName sg = managerInterface @ ''.JobRemoved''
          then (case Body sg of
                  (id', job, unit, result) \<Rightarrow>
                    (case jobs s job of
                       Some out \<Rightarrow> send out result s
                     | None \<Rightarrow> s))
          else s)"

text \<open>
  \<open>startJob\<close>. \<open>reply\<close> is the outcome of \<open>sysobj.Call(job, 0, args...).Store(&path)\<close>:
  \<open>Inl err\<close>, or \<open>Inr path\<close> with the job path the manager returned.
  \<^verbatim>\<open>
  ch := make(chan string, 1)
  var path dbus.ObjectPath
  err := sysobj.Call(job, 0, args...).Store(&path)
  if err != nil {
      return nil, err
  }
  subscriber.jobs[path] = ch
  return ch, nil
  \<close>
\<close>

definition startJob :: "error + ObjectPath \<Rightarrow> subscriberT \<Rightarrow> (error + chan_ref) \<times> subscriberT" where
  "startJob reply s =
     (case make_chan 1 s of
        (ch, s1) \<Rightarrow>
          (case reply of
             Inl err \<Rightarrow> (Inl err, s1)
           | Inr path \<Rightarrow> (Inr ch, s1\<lparr>jobs := (jobs s1)(path \<mapsto> ch)\<rparr>)))"

subsection \<open>Executions of the correlator\<close>

text \<open>
  The goroutines interleave. An execution is a list of events: a caller runs
  \<open>startJob\<close> and the transport gives the reply (\<open>Enqueue\<close>); the listener reads a
  value from its signal channel and handles it (\<open>Notify\<close>); a waiter receives from a
  job channel, as \<open>runJob\<close> does with \<open><-respCh\<close> (\<open>Await\<close>). An event that cannot
  happen in a state leaves it as it is (the goroutine waits): \<open>startJob\<close> and the
  listener cannot enter the locked region while the listener is blocked in a send, and a
  receive needs a buffered value. A receive takes no lock; it only reads the channel's
  buffer, which the lookup of a locked region does not touch, so a receive that falls
  inside a locked region has the effect of one just before or just after it.
\<close>

datatype event =
  Enqueue "error + ObjectPath"
| Notify "Signal option"
| Await chan_ref

fun step :: "subscriberT \<Rightarrow> event \<Rightarrow> subscriberT" where
  "step s (Enqueue reply) = (if blocked s = None then snd (startJob reply s) else s)"
| "step s (Notify signal) = (if blocked s = None then listener signal s else s)"
| "step s (Await c) = (case recv c s of None \<Rightarrow> s | Some (v, s') \<Rightarrow> s')"

fun run :: "subscriberT \<Rightarrow> event list \<Rightarrow> subscriberT" where
  "run s [] = s"
| "run s (e # es) = run (step s e) es"

text \<open>The job paths of the \<open>JobRemoved\<close> signals of an execution, in order.\<close>

fun removed_jobs :: "event list \<Rightarrow> ObjectPath list" where
  "removed_jobs [] = []"
| "removed_jobs (Notify (Some sg) # es) =
     (if SignalName sg = managerInterface @ ''.JobRemoved''
      then fst (snd (Body sg)) # removed_jobs es
      else removed_jobs es)"
| "removed_jobs (e # es) = removed_jobs es"

subsection \<open>Invariants of the correlator and sample data\<close>

text \<open>
  In every state an execution reaches, a registered channel has been made, two paths
  never share a channel (\<open>startJob\<close> registers a channel it has just made), and a
  listener waiting in a send waits on a registered channel.
\<close>

definition wf :: "subscriberT \<Rightarrow> bool" where
  "wf s =
     ((\<forall>p c. jobs s p = Some c \<longrightarrow> c < nchans s) \<and>
      (\<forall>p q c. jobs s p = Some c \<and> jobs s q = Some c \<longrightarrow> p = q) \<and>
      (\<forall>c v. blocked s = Some (c, v) \<longrightarrow> (\<exists>p. jobs s p = Some c)))"

text \<open>A channel that exists, is registered under no path and has no send pending.\<close>

definition orphan :: "chan_ref \<Rightarrow> subscriberT \<Rightarrow> bool" where
  "orphan c s =
     (c < nchans s \<and> (\<forall>q. jobs s q \<noteq> Some c) \<and> (\<forall>v. blocked s \<noteq> Some (c, v)))"

text \<open>
  \<open>D\<close> holds the job paths of the \<open>JobRemoved\<close> signals handled so far. No send is
  pending, no channel has been sent more than one value, registered channels have
  capacity one, and a channel registered under a path outside \<open>D\<close> is still untouched.
\<close>

definition once :: "ObjectPath set \<Rightarrow> subscriberT \<Rightarrow> bool" where
  "once D s =
     (wf s \<and> blocked s = None \<and>
      (\<forall>c. length (sent (chans s c)) \<le> 1) \<and>
      (\<forall>p c. jobs s p = Some c \<longrightarrow> cap (chans s c) = 1) \<and>
      (\<forall>p c. jobs s p = Some c \<and> p \<notin> D \<longrightarrow> sent (chans s c) = []))"

text \<open>Sample data for the worked examples: a unit record, a range order, a signal.\<close>

definition unit_named :: "string \<Rightarrow> string \<Rightarrow> UnitStatus" where
  "unit_named n a =
     \<lparr>Name = n, Description = [], LoadState = ''loaded'', ActiveState = a, SubState = [],
      Followed = [], Path = [], JobId = 0, JobType = [], JobPath = []\<rparr>"

definition keys_among :: "string list \<Rightarrow> snapshot \<Rightarrow> string list" where
  "keys_among ns m = filter (\<lambda>n. m n \<noteq> None) ns"

definition job_removed :: "ObjectPath \<Rightarrow> string \<Rightarrow> Signal" where
  "job_removed job result =
     \<lparr>SignalName = ''org.freedesktop.systemd1.Manager.JobRemoved'',
      Body = (1, job, ''a.service'', result)\<rparr>"

section \<open>The change detector\<close>

lemma fst_add_changed:
  "fst (add_changed ic cur ns (prev, ch)) n =
     (if n \<in> set ns \<and> cur n \<noteq> None then None else prev n)"
  by (induction ns arbitrary: prev ch) (auto split: option.splits)

lemma snd_add_changed:
  "distinct ns \<Longrightarrow>
   snd (add_changed ic cur ns (prev, ch)) n =
     (if n \<in> set ns then
        (case cur n of
           None \<Rightarrow> ch n
         | Some u \<Rightarrow>
             (case prev n of
                None \<Rightarrow> Some (Some u)
              | Some oldU \<Rightarrow> if ic oldU u then Some (Some u) else ch n))
      else ch n)"
proof (induction ns arbitrary: prev ch)
  case Nil
  then show ?case by simp
next
  case (Cons a ns)
  then show ?case
    by (cases "cur a") (auto split: option.splits)
qed

lemma add_deleted_apply:
  "add_deleted ns ch n = (if n \<in> set ns then Some None else ch n)"
  by (induction ns arbitrary: ch) auto

text \<open>Whatever legal orders the two \<open>range\<close> loops take, the result is the same map.\<close>

lemma changed_units_diff:
  assumes c: "range_order keys cur"
    and o: "range_order keys (fst (add_changed isChanged cur (keys cur) (prev, Map.empty)))"
  shows "changed_units isChanged keys prev cur = diff_spec prev cur (\<lambda>p c. \<not> isChanged p c)"
proof (rule ext)
  fix n
  obtain prev' ch where ac: "add_changed isChanged cur (keys cur) (prev, Map.empty) = (prev', ch)"
    by (cases "add_changed isChanged cur (keys cur) (prev, Map.empty)")
  have prev': "prev' n = (if n \<in> set (keys cur) \<and> cur n \<noteq> None then None else prev n)"
    using fst_add_changed [of isChanged cur "keys cur" prev Map.empty n] ac by simp
  have dc: "distinct (keys cur)" and sc: "set (keys cur) = dom cur"
    using c by (simp_all add: range_order_def)
  have ch: "ch n =
     (if n \<in> set (keys cur) then
        (case cur n of
           None \<Rightarrow> None
         | Some u \<Rightarrow>
             (case prev n of
                None \<Rightarrow> Some (Some u)
              | Some oldU \<Rightarrow> if isChanged oldU u then Some (Some u) else None))
      else None)"
    using snd_add_changed [OF dc, of isChanged cur prev Map.empty n] ac by simp
  have so: "set (keys prev') = dom prev'"
    using o ac by (simp add: range_order_def)
  have mem: "n \<in> set (keys prev') \<longleftrightarrow> prev' n \<noteq> None"
    using so by auto
  show "changed_units isChanged keys prev cur n = diff_spec prev cur (\<lambda>p c. \<not> isChanged p c) n"
    using sc
    by (auto simp: changed_units_def ac add_deleted_apply mem prev' ch diff_spec_def
        split: option.splits)
qed

text \<open>
  Claim C2. For every previous snapshot (the retained \<open>old\<close>), every fetched list of
  units and every equality predicate, the delta that a successful poll cycle sends has
  exactly the entries the specification's change detector lists: a name of the current
  snapshot that is new, or whose old and current records are not equal, with its current
  record; a name only in the previous snapshot with nil; nothing for a name in both
  whose records are equal. The function the code takes is \<open>isChanged\<close>, which answers
  whether the records differ: the cycle runs with the negation of \<open>equal\<close>. The two
  hypotheses say that each \<open>range\<close> loop visits every key of its map once.
\<close>

theorem poll_cycle_delta_is_diff:
  assumes "range_order keys (index_units units Map.empty)"
    and "range_order keys
           (fst (add_changed (\<lambda>oldU u. \<not> equal oldU u) (index_units units Map.empty)
                   (keys (index_units units Map.empty)) (old s, Map.empty)))"
  shows "statusChan (poll_cycle (\<lambda>oldU u. \<not> equal oldU u) keys (Inr units) s) =
           statusChan s @ [diff_spec (old s) (index_units units Map.empty) equal]"
  using changed_units_diff [OF assms] by (simp add: poll_cycle_def Let_def)

text \<open>
  The example of the specification: previous \<open>{a: A1, b: B}\<close>, current \<open>{a: A2, c: C}\<close>,
  structural equality; the delta is \<open>{a: A2, b: nil, c: C}\<close>.
\<close>

theorem poll_cycle_delta_is_diff_witness:
  "range_order (keys_among [''a'', ''b'', ''c''])
     (index_units [unit_named ''a'' ''active'', unit_named ''c'' ''active''] Map.empty) \<and>
   range_order (keys_among [''a'', ''b'', ''c''])
     (fst (add_changed (\<lambda>oldU u. \<not> oldU = u)
             (index_units [unit_named ''a'' ''active'', unit_named ''c'' ''active''] Map.empty)
             (keys_among [''a'', ''b'', ''c'']
                (index_units [unit_named ''a'' ''active'', unit_named ''c'' ''active''] Map.empty))
             (old \<lparr>old = [''a'' \<mapsto> unit_named ''a'' ''inactive'', ''b'' \<mapsto> unit_named ''b'' ''active''],
                   statusChan = [], errChan = []\<rparr>, Map.empty))) \<and>
   statusChan
     (poll_cycle (\<lambda>oldU u. \<not> oldU = u) (keys_among [''a'', ''b'', ''c''])
        (Inr [unit_named ''a'' ''active'', unit_named ''c'' ''active''])
        \<lparr>old = [''a'' \<mapsto> unit_named ''a'' ''inactive'', ''b'' \<mapsto> unit_named ''b'' ''active''],
         statusChan = [], errChan = []\<rparr>) =
     [[''a'' \<mapsto> Some (unit_named ''a'' ''active''), ''b'' \<mapsto> None,
       ''c'' \<mapsto> Some (unit_named ''c'' ''active'')]]"
proof -
  let ?units = "[unit_named ''a'' ''active'', unit_named ''c'' ''active'']"
  let ?s = "\<lparr>old = [''a'' \<mapsto> unit_named ''a'' ''inactive'', ''b'' \<mapsto> unit_named ''b'' ''active''],
             statusChan = [], errChan = []\<rparr>"
  let ?keys = "keys_among [''a'', ''b'', ''c'']"
  have h1: "range_order ?keys (index_units ?units Map.empty)"
    by (auto simp: range_order_def keys_among_def unit_named_def)
  have h2: "range_order ?keys
     (fst (add_changed (\<lambda>oldU u. \<not> oldU = u) (index_units ?units Map.empty)
             (?keys (index_units ?units Map.empty)) (old ?s, Map.empty)))"
    by (auto simp: range_order_def keys_among_def unit_named_def)
  have d: "diff_spec (old ?s) (index_units ?units Map.empty) (=) =
     [''a'' \<mapsto> Some (unit_named ''a'' ''active''), ''b'' \<mapsto> None,
       ''c'' \<mapsto> Some (unit_named ''c'' ''active'')]"
    by (rule ext) (simp add: diff_spec_def unit_named_def)
  show ?thesis
    using h1 h2 poll_cycle_delta_is_diff [OF h1 h2] d by simp
qed

section \<open>The poll cycle\<close>

text \<open>
  Claim C3. A cycle whose fetch fails sends exactly one value, the error, on the error
  channel, sends nothing on the status channel and leaves \<open>old\<close> as it was; so a
  successful cycle after it sends the delta against the \<open>old\<close> from before the failure.
  With a success, a failure and a success in a row, the third cycle's delta is computed
  against the snapshot of the first, and the run sends one error.
\<close>

theorem poll_cycle_fetch_failure:
  "errChan (poll_cycle isChanged keys (Inl err) s) = errChan s @ [err] \<and>
   statusChan (poll_cycle isChanged keys (Inl err) s) = statusChan s \<and>
   old (poll_cycle isChanged keys (Inl err) s) = old s \<and>
   statusChan (poll_cycle isChanged keys' (Inr units) (poll_cycle isChanged keys (Inl err) s)) =
     statusChan s @ [changed_units isChanged keys' (old s) (index_units units Map.empty)] \<and>
   statusChan
     (poll_cycles isChanged [(keys1, Inr units1), (keys2, Inl err), (keys3, Inr units3)] s) =
     statusChan s @
       [changed_units isChanged keys1 (old s) (index_units units1 Map.empty),
        changed_units isChanged keys3 (index_units units1 Map.empty) (index_units units3 Map.empty)] \<and>
   errChan
     (poll_cycles isChanged [(keys1, Inr units1), (keys2, Inl err), (keys3, Inr units3)] s) =
     errChan s @ [err]"
  by (simp add: poll_cycle_def Let_def)

text \<open>
  Claim C7. A cycle whose fetch succeeds sends the computed delta on the status channel,
  also when the delta is the empty map, sends nothing on the error channel, and after
  the cycle \<open>old\<close> is the snapshot just fetched. (In the body the assignment
  \<open>old = cur\<close> stands before the send; \<open>old\<close> is local to the goroutine, and the
  theorem speaks of the state when the cycle is over.)
\<close>

theorem poll_cycle_fetch_success:
  "statusChan (poll_cycle isChanged keys (Inr units) s) =
     statusChan s @ [changed_units isChanged keys (old s) (index_units units Map.empty)] \<and>
   (changed_units isChanged keys (old s) (index_units units Map.empty) = Map.empty \<longrightarrow>
      statusChan (poll_cycle isChanged keys (Inr units) s) = statusChan s @ [Map.empty]) \<and>
   errChan (poll_cycle isChanged keys (Inr units) s) = errChan s \<and>
   old (poll_cycle isChanged keys (Inr units) s) = index_units units Map.empty"
  by (simp add: poll_cycle_def Let_def)

text \<open>The same unit fetched again, unchanged: the delta is empty and is sent.\<close>

theorem poll_cycle_fetch_success_witness:
  "changed_units SubscribeUnits_isChanged (keys_among [''a''])
     (old \<lparr>old = [''a'' \<mapsto> unit_named ''a'' ''active''], statusChan = [], errChan = []\<rparr>)
     (index_units [unit_named ''a'' ''active''] Map.empty) = Map.empty \<and>
   statusChan
     (poll_cycle SubscribeUnits_isChanged (keys_among [''a'']) (Inr [unit_named ''a'' ''active''])
        \<lparr>old = [''a'' \<mapsto> unit_named ''a'' ''active''], statusChan = [], errChan = []\<rparr>) =
     [Map.empty]"
proof -
  let ?s = "\<lparr>old = [''a'' \<mapsto> unit_named ''a'' ''active''], statusChan = [], errChan = []\<rparr>"
  have e: "changed_units SubscribeUnits_isChanged (keys_among [''a'']) (old ?s)
     (index_units [unit_named ''a'' ''active''] Map.empty) = Map.empty"
    by (simp add: changed_units_def keys_among_def SubscribeUnits_isChanged_def unit_named_def)
  show ?thesis
    using e poll_cycle_fetch_success
      [of SubscribeUnits_isChanged "keys_among [''a'']" "[unit_named ''a'' ''active'']" ?s]
    by simp
qed

section \<open>Invariants of the executions\<close>

lemma wf_init: "wf initSubscriber"
  by (simp add: wf_def initSubscriber_def)

lemma startJob_Inl: "startJob (Inl err) s =
  (Inl err, s\<lparr>chans := (chans s)(nchans s := \<lparr>cap = 1, sent = [], recvd = 0\<rparr>), nchans := Suc (nchans s)\<rparr>)"
  by (simp add: startJob_def make_chan_def)

lemma startJob_Inr: "startJob (Inr path) s =
  (Inr (nchans s), s\<lparr>chans := (chans s)(nchans s := \<lparr>cap = 1, sent = [], recvd = 0\<rparr>), nchans := Suc (nchans s),
     jobs := (jobs s)(path \<mapsto> nchans s)\<rparr>)"
  by (simp add: startJob_def make_chan_def)

lemma wf_startJob: "wf s \<Longrightarrow> blocked s = None \<Longrightarrow> wf (snd (startJob reply s))"
proof (cases reply)
  case (Inl err)
  assume "wf s" "blocked s = None"
  then show ?thesis unfolding Inl startJob_Inl wf_def
    by (auto simp: less_Suc_eq)
next
  case (Inr path)
  assume w: "wf s" and nb: "blocked s = None"
  then have fresh: "\<And>p. jobs s p \<noteq> Some (nchans s)"
    unfolding wf_def by (metis less_irrefl)
  show ?thesis unfolding Inr startJob_Inr wf_def
    using w nb fresh by (auto simp: less_Suc_eq wf_def split: if_splits)
qed

lemma listener_cases:
  "listener signal s = s \<or>
   (\<exists>sg i job u result out. signal = Some sg \<and> SignalName sg = managerInterface @ ''.JobRemoved'' \<and>
      Body sg = (i, job, u, result) \<and> jobs s job = Some out \<and> listener signal s = send out result s)"
  by (auto simp: listener_def split: option.splits prod.splits)

lemma jobs_send [simp]: "jobs (send out v s) = jobs s"
  by (simp add: send_def)

lemma nchans_send [simp]: "nchans (send out v s) = nchans s"
  by (simp add: send_def)

lemma jobs_listener [simp]: "jobs (listener signal s) = jobs s"
  using listener_cases [of signal s] by auto

lemma nchans_listener [simp]: "nchans (listener signal s) = nchans s"
  using listener_cases [of signal s] by auto

lemma wf_send: "wf s \<Longrightarrow> jobs s job = Some out \<Longrightarrow> wf (send out v s)"
  by (auto simp: wf_def send_def)

lemma wf_listener: "wf s \<Longrightarrow> wf (listener signal s)"
  using listener_cases [of signal s] by (auto simp: wf_send)

lemma recv_Some:
  "recv c s = Some (v, s') \<Longrightarrow>
     jobs s' = jobs s \<and> nchans s' = nchans s \<and> (blocked s' = blocked s \<or> blocked s' = None)"
  by (auto simp: recv_def Let_def split: list.splits option.splits if_splits)

lemma wf_recv: "wf s \<Longrightarrow> recv c s = Some (v, s') \<Longrightarrow> wf s'"
  using recv_Some [of c s v s'] by (auto simp: wf_def)

lemma wf_step: "wf s \<Longrightarrow> wf (step s e)"
  by (cases e) (auto simp: wf_startJob wf_listener wf_recv split: option.splits)

lemma wf_run: "wf s \<Longrightarrow> wf (run s es)"
  by (induction es arbitrary: s) (auto simp: wf_step)

lemma wf_reachable: "wf (run initSubscriber evs)"
  by (simp add: wf_run wf_init)

lemma chans_send_other: "c \<noteq> out \<Longrightarrow> chans (send out v s) c = chans s c"
  by (simp add: send_def)

lemma send_room:
  "length (buffered (chans s out)) < cap (chans s out) \<Longrightarrow>
     send out v s = s\<lparr>chans := (chans s)(out := (chans s out)\<lparr>sent := sent (chans s out) @ [v]\<rparr>)\<rparr>"
  by (simp add: send_def)

lemma send_full:
  "\<not> length (buffered (chans s out)) < cap (chans s out) \<Longrightarrow>
     send out v s = s\<lparr>blocked := Some (out, v)\<rparr>"
  by (simp add: send_def)

lemma listener_JobRemoved:
  "SignalName sg = managerInterface @ ''.JobRemoved'' \<Longrightarrow> Body sg = (i, job, u, result) \<Longrightarrow>
     listener (Some sg) s = (case jobs s job of Some out \<Rightarrow> send out result s | None \<Rightarrow> s)"
  by (simp add: listener_def)


lemma orphan_startJob:
  "orphan c s \<Longrightarrow> orphan c (snd (startJob reply s)) \<and>
     sent (chans (snd (startJob reply s)) c) = sent (chans s c)"
  by (cases reply) (auto simp: orphan_def startJob_Inl startJob_Inr)

lemma orphan_listener:
  "orphan c s \<Longrightarrow> orphan c (listener signal s) \<and>
     sent (chans (listener signal s) c) = sent (chans s c)"
  using listener_cases [of signal s]
  by (auto simp: orphan_def send_def split: if_splits)

lemma orphan_recv:
  "orphan c s \<Longrightarrow> recv d s = Some (v, s') \<Longrightarrow>
     orphan c s' \<and> sent (chans s' c) = sent (chans s c)"
  by (auto simp: orphan_def recv_def Let_def split: list.splits option.splits if_splits)

lemma orphan_step:
  "orphan c s \<Longrightarrow> orphan c (step s e) \<and> sent (chans (step s e) c) = sent (chans s c)"
  by (cases e) (auto simp: orphan_startJob orphan_listener orphan_recv split: option.splits)

lemma orphan_run:
  "orphan c s \<Longrightarrow> orphan c (run s es) \<and> sent (chans (run s es) c) = sent (chans s c)"
proof (induction es arbitrary: s)
  case Nil
  then show ?case by simp
next
  case (Cons e es)
  from orphan_step [OF Cons.prems, of e]
  have o: "orphan c (step s e)" and eq: "sent (chans (step s e) c) = sent (chans s c)"
    by simp_all
  from Cons.IH [OF o] eq show ?case by simp
qed

lemma once_init: "once {} initSubscriber"
  by (simp add: once_def wf_init) (simp add: initSubscriber_def)

lemma once_mono: "once D s \<Longrightarrow> once (insert p D) s"
  by (auto simp: once_def)

lemma once_startJob: "once D s \<Longrightarrow> once D (snd (startJob reply s))"
proof -
  assume o: "once D s"
  then have w: "wf s" and nb: "blocked s = None" by (simp_all add: once_def)
  have w': "wf (snd (startJob reply s))" by (rule wf_startJob [OF w nb])
  have fresh: "\<And>p. jobs s p \<noteq> Some (nchans s)"
    using w unfolding wf_def by (metis less_irrefl)
  show ?thesis
    using o w' fresh
    by (cases reply) (auto simp: once_def startJob_Inl startJob_Inr)
qed

lemma once_removed:
  assumes o: "once D s" and n: "SignalName sg = managerInterface @ ''.JobRemoved''"
    and new: "fst (snd (Body sg)) \<notin> D"
  shows "once (insert (fst (snd (Body sg))) D) (listener (Some sg) s)"
proof -
  obtain i job u result where b: "Body sg = (i, job, u, result)"
    by (cases "Body sg") auto
  have l: "listener (Some sg) s = (case jobs s job of Some out \<Rightarrow> send out result s | None \<Rightarrow> s)"
    by (rule listener_JobRemoved [OF n b])
  show ?thesis
  proof (cases "jobs s job")
    case None
    then show ?thesis using o l b by (simp add: once_mono)
  next
    case (Some out)
    have w: "wf s" using o by (simp add: once_def)
    have empty: "sent (chans s out) = []" and c1: "cap (chans s out) = 1"
      using o Some new b by (auto simp: once_def)
    then have room: "length (buffered (chans s out)) < cap (chans s out)"
      by (simp add: buffered_def)
    have inj: "\<And>p c. jobs s p = Some c \<Longrightarrow> p \<noteq> job \<Longrightarrow> c \<noteq> out"
      using w Some unfolding wf_def by blast
    have w': "wf (send out result s)" by (rule wf_send [OF w Some])
    show ?thesis
      using o w' inj empty c1 Some
      unfolding l b
      by (auto simp: send_room [OF room] once_def)
  qed
qed

lemma once_recv: "once D s \<Longrightarrow> recv c s = Some (v, s') \<Longrightarrow> once D s'"
proof -
  assume o: "once D s" and r: "recv c s = Some (v, s')"
  have w': "wf s'" using o r wf_recv by (auto simp: once_def)
  show ?thesis
    using o r w'
    by (auto simp: once_def recv_def Let_def split: list.splits)
qed

lemma once_step:
  assumes o: "once D s" and new: "set (removed_jobs [e]) \<inter> D = {}"
  shows "once (D \<union> set (removed_jobs [e])) (step s e)"
proof (cases e)
  case (Enqueue reply)
  have "blocked s = None" using o by (simp add: once_def)
  then show ?thesis using once_startJob [OF o, of reply] Enqueue by simp
next
  case (Notify signal)
  have nb: "blocked s = None" using o by (simp add: once_def)
  show ?thesis
  proof (cases signal)
    case None
    then show ?thesis using o Notify by (simp add: listener_def)
  next
    case (Some sg)
    show ?thesis
    proof (cases "SignalName sg = managerInterface @ ''.JobRemoved''")
      case True
      have "fst (snd (Body sg)) \<notin> D" using new Notify Some True by simp
      from once_removed [OF o True this] show ?thesis using Notify Some True nb by simp
    next
      case False
      then show ?thesis using o Notify Some by (simp add: listener_def)
    qed
  qed
next
  case (Await c)
  show ?thesis
  proof (cases "recv c s")
    case None
    then show ?thesis using o Await by simp
  next
    case (Some r)
    obtain v s' where r: "r = (v, s')" by (cases r)
    have "once D s'" using once_recv [OF o] Some r by simp
    then show ?thesis using Await Some r by simp
  qed
qed

lemma removed_jobs_append: "removed_jobs (xs @ ys) = removed_jobs xs @ removed_jobs ys"
  by (induction xs rule: removed_jobs.induct) auto

lemma removed_jobs_Cons: "removed_jobs (e # es) = removed_jobs [e] @ removed_jobs es"
  using removed_jobs_append [of "[e]" es] by simp

lemma once_run:
  "once D s \<Longrightarrow> distinct (removed_jobs es) \<Longrightarrow> set (removed_jobs es) \<inter> D = {} \<Longrightarrow>
     once (D \<union> set (removed_jobs es)) (run s es)"
proof (induction es arbitrary: s D)
  case Nil
  then show ?case by simp
next
  case (Cons e es)
  have split: "removed_jobs (e # es) = removed_jobs [e] @ removed_jobs es"
    by (rule removed_jobs_Cons)
  have new: "set (removed_jobs [e]) \<inter> D = {}"
    using Cons.prems(3) unfolding split by auto
  have o: "once (D \<union> set (removed_jobs [e])) (step s e)"
    by (rule once_step [OF Cons.prems(1) new])
  have d: "distinct (removed_jobs es)"
    using Cons.prems(2) unfolding split by simp
  have i: "set (removed_jobs es) \<inter> (D \<union> set (removed_jobs [e])) = {}"
    using Cons.prems(2,3) unfolding split by auto
  from Cons.IH [OF o d i] show ?case
    unfolding split by (simp add: Un_assoc)
qed

lemma distinct_removed_take: "distinct (removed_jobs es) \<Longrightarrow> distinct (removed_jobs (take n es))"
proof -
  assume d: "distinct (removed_jobs es)"
  have "removed_jobs es = removed_jobs (take n es) @ removed_jobs (drop n es)"
    by (metis append_take_drop_id removed_jobs_append)
  with d show ?thesis by simp
qed


section \<open>Delivery of results\<close>

text \<open>
  Claim C1. In any state an execution of the correlator reaches (any enqueued operations,
  so in particular operations with pairwise distinct job paths), when the listener
  handles a \<open>JobRemoved\<close> signal carrying the path \<open>job\<close> and the string \<open>result\<close>:
  no channel registered under another path changes; more generally no channel other than
  the one registered under \<open>job\<close> changes; and the channel registered under \<open>job\<close>,
  when its buffer has room, is sent \<open>result\<close>.
\<close>

theorem listener_delivers_to_own_path:
  assumes n: "SignalName sg = managerInterface @ ''.JobRemoved''"
    and b: "Body sg = (i, job, u, result)"
  shows "(\<forall>q c. q \<noteq> job \<and> jobs (run initSubscriber evs) q = Some c \<longrightarrow>
            chans (listener (Some sg) (run initSubscriber evs)) c = chans (run initSubscriber evs) c) \<and>
         (\<forall>c. jobs (run initSubscriber evs) job \<noteq> Some c \<longrightarrow>
            chans (listener (Some sg) (run initSubscriber evs)) c = chans (run initSubscriber evs) c) \<and>
         (\<forall>out. jobs (run initSubscriber evs) job = Some out \<and>
              length (buffered (chans (run initSubscriber evs) out)) <
                cap (chans (run initSubscriber evs) out) \<longrightarrow>
            sent (chans (listener (Some sg) (run initSubscriber evs)) out) =
              sent (chans (run initSubscriber evs) out) @ [result])"
proof -
  let ?s = "run initSubscriber evs"
  have w: "wf ?s" by (rule wf_reachable)
  have other: "chans (listener (Some sg) ?s) c = chans ?s c" if "jobs ?s job \<noteq> Some c" for c
    using that by (cases "jobs ?s job") (simp_all add: listener_JobRemoved [OF n b] chans_send_other)
  have inj: "jobs ?s job \<noteq> Some c" if "q \<noteq> job" "jobs ?s q = Some c" for q c
    using w that unfolding wf_def by blast
  have own: "sent (chans (listener (Some sg) ?s) out) = sent (chans ?s out) @ [result]"
    if "jobs ?s job = Some out" "length (buffered (chans ?s out)) < cap (chans ?s out)" for out
    using that by (simp add: listener_JobRemoved [OF n b] send_room)
  show ?thesis using other inj own by blast
qed

theorem listener_delivers_to_own_path_witness:
  "SignalName (job_removed ''/job/1'' ''done'') = managerInterface @ ''.JobRemoved'' \<and>
   Body (job_removed ''/job/1'' ''done'') = (1, ''/job/1'', ''a.service'', ''done'') \<and>
   jobs (run initSubscriber [Enqueue (Inr ''/job/1''), Enqueue (Inr ''/job/2'')]) ''/job/1'' = Some 0 \<and>
   jobs (run initSubscriber [Enqueue (Inr ''/job/1''), Enqueue (Inr ''/job/2'')]) ''/job/2'' = Some 1 \<and>
   sent (chans (listener (Some (job_removed ''/job/1'' ''done''))
                  (run initSubscriber [Enqueue (Inr ''/job/1''), Enqueue (Inr ''/job/2'')])) 0) =
     [''done''] \<and>
   sent (chans (listener (Some (job_removed ''/job/1'' ''done''))
                  (run initSubscriber [Enqueue (Inr ''/job/1''), Enqueue (Inr ''/job/2'')])) 1) = []"
proof -
  let ?sg = "job_removed ''/job/1'' ''done''"
  let ?s = "run initSubscriber [Enqueue (Inr ''/job/1''), Enqueue (Inr ''/job/2'')]"
  have n: "SignalName ?sg = managerInterface @ ''.JobRemoved''"
    by (simp add: job_removed_def managerInterface_def)
  have b: "Body ?sg = (1, ''/job/1'', ''a.service'', ''done'')"
    by (simp add: job_removed_def)
  have j1: "jobs ?s ''/job/1'' = Some 0" and j2: "jobs ?s ''/job/2'' = Some 1"
    by (simp_all add: initSubscriber_def startJob_def make_chan_def)
  have c0: "chans ?s 0 = \<lparr>cap = 1, sent = [], recvd = 0\<rparr>"
    and c1: "chans ?s 1 = \<lparr>cap = 1, sent = [], recvd = 0\<rparr>"
    by (simp_all add: initSubscriber_def startJob_def make_chan_def)
  note t = listener_delivers_to_own_path [OF n b, of "[Enqueue (Inr ''/job/1''), Enqueue (Inr ''/job/2'')]"]
  have h2: "''/job/2'' \<noteq> ''/job/1'' \<and> jobs ?s ''/job/2'' = Some 1"
    using j2 by simp
  have other: "chans (listener (Some ?sg) ?s) 1 = chans ?s 1"
    by (rule t [THEN conjunct1, rule_format, of "''/job/2''" 1, OF h2])
  have h1: "jobs ?s ''/job/1'' = Some 0 \<and> length (buffered (chans ?s 0)) < cap (chans ?s 0)"
    using j1 c0 by (simp add: buffered_def)
  have own: "sent (chans (listener (Some ?sg) ?s) 0) = sent (chans ?s 0) @ [''done'']"
    by (rule t [THEN conjunct2, THEN conjunct2, rule_format, of 0, OF h1])
  show ?thesis using n b j1 j2 other own c0 c1 by simp
qed


text \<open>
  Claim C4 says that the listener, on a \<open>JobRemoved\<close> signal whose path is in the table,
  delivers the result and removes the entry. The listener has no \<open>delete\<close>: after one
  \<open>startJob\<close> that registered \<open>/job/1\<close> and the matching signal, the result is in the
  channel and the entry is still in the table.
\<close>

theorem listener_keeps_entry_counterexample:
  "jobs (run initSubscriber [Enqueue (Inr ''/job/1'')]) ''/job/1'' = Some 0 \<and>
   sent (chans (listener (Some (job_removed ''/job/1'' ''done''))
                  (run initSubscriber [Enqueue (Inr ''/job/1'')])) 0) = [''done''] \<and>
   jobs (listener (Some (job_removed ''/job/1'' ''done''))
           (run initSubscriber [Enqueue (Inr ''/job/1'')])) ''/job/1'' = Some 0"
  by (simp add: initSubscriber_def startJob_def make_chan_def listener_def send_def
      buffered_def managerInterface_def job_removed_def)

text \<open>
  Claim C4, amended. When the listener handles a \<open>JobRemoved\<close> signal whose job path is
  in the table, it sends the result on that entry's channel and leaves the table as it
  is, the entry included: if the channel's buffer has room the only change of the state
  is that value appended to the channel; if not, the listener waits in the send and
  nothing else changes.
\<close>

theorem listener_delivers_and_keeps_entry:
  assumes n: "SignalName sg = managerInterface @ ''.JobRemoved''"
    and b: "Body sg = (i, job, u, result)"
    and j: "jobs s job = Some out"
  shows "jobs (listener (Some sg) s) = jobs s \<and>
         (length (buffered (chans s out)) < cap (chans s out) \<longrightarrow>
            listener (Some sg) s =
              s\<lparr>chans := (chans s)(out := (chans s out)\<lparr>sent := sent (chans s out) @ [result]\<rparr>)\<rparr>) \<and>
         (\<not> length (buffered (chans s out)) < cap (chans s out) \<longrightarrow>
            listener (Some sg) s = s\<lparr>blocked := Some (out, result)\<rparr>)"
  using j by (simp add: listener_JobRemoved [OF n b] send_def)

theorem listener_delivers_and_keeps_entry_witness:
  "SignalName (job_removed ''/job/1'' ''done'') = managerInterface @ ''.JobRemoved'' \<and>
   Body (job_removed ''/job/1'' ''done'') = (1, ''/job/1'', ''a.service'', ''done'') \<and>
   jobs (run initSubscriber [Enqueue (Inr ''/job/1'')]) ''/job/1'' = Some 0 \<and>
   length (buffered (chans (run initSubscriber [Enqueue (Inr ''/job/1'')]) 0)) <
     cap (chans (run initSubscriber [Enqueue (Inr ''/job/1'')]) 0) \<and>
   jobs (listener (Some (job_removed ''/job/1'' ''done''))
           (run initSubscriber [Enqueue (Inr ''/job/1'')])) =
     jobs (run initSubscriber [Enqueue (Inr ''/job/1'')]) \<and>
   sent (chans (listener (Some (job_removed ''/job/1'' ''done''))
                  (run initSubscriber [Enqueue (Inr ''/job/1'')])) 0) = [''done'']"
proof -
  let ?sg = "job_removed ''/job/1'' ''done''"
  let ?s = "run initSubscriber [Enqueue (Inr ''/job/1'')]"
  have n: "SignalName ?sg = managerInterface @ ''.JobRemoved''"
    by (simp add: job_removed_def managerInterface_def)
  have b: "Body ?sg = (1, ''/job/1'', ''a.service'', ''done'')"
    by (simp add: job_removed_def)
  have j: "jobs ?s ''/job/1'' = Some 0"
    by (simp add: initSubscriber_def startJob_def make_chan_def)
  have c0: "chans ?s 0 = \<lparr>cap = 1, sent = [], recvd = 0\<rparr>"
    by (simp add: initSubscriber_def startJob_def make_chan_def)
  have room: "length (buffered (chans ?s 0)) < cap (chans ?s 0)"
    using c0 by (simp add: buffered_def)
  note t = listener_delivers_and_keeps_entry [OF n b j]
  have keep: "jobs (listener (Some ?sg) ?s) = jobs ?s"
    by (rule t [THEN conjunct1])
  have "listener (Some ?sg) ?s =
          ?s\<lparr>chans := (chans ?s)(0 := (chans ?s 0)\<lparr>sent := sent (chans ?s 0) @ [''done'']\<rparr>)\<rparr>"
    by (rule t [THEN conjunct2, THEN conjunct1, rule_format, OF room])
  then have "sent (chans (listener (Some ?sg) ?s) 0) = sent (chans ?s 0) @ [''done'']"
    by simp
  then have got: "sent (chans (listener (Some ?sg) ?s) 0) = [''done'']"
    using c0 by simp
  show ?thesis using n b j room keep got by blast
qed

section \<open>\<open>startJob\<close>\<close>

text \<open>
  Claim C5. When the transport call fails, \<open>startJob\<close> returns that error and the table
  \<open>jobs\<close> is as before; and in a state an execution reaches, the channel this call
  made is registered under no path.
\<close>

theorem startJob_transport_failure:
  "fst (startJob (Inl err) s) = Inl err \<and>
   jobs (snd (startJob (Inl err) s)) = jobs s \<and>
   blocked (snd (startJob (Inl err) s)) = blocked s \<and>
   (\<forall>p. jobs (snd (startJob (Inl err) (run initSubscriber evs))) p \<noteq>
          Some (nchans (run initSubscriber evs)))"
proof -
  have "wf (run initSubscriber evs)" by (rule wf_reachable)
  then have "\<And>p. jobs (run initSubscriber evs) p \<noteq> Some (nchans (run initSubscriber evs))"
    unfolding wf_def by (metis less_irrefl)
  then show ?thesis by (simp add: startJob_Inl)
qed

section \<open>Signals the listener ignores\<close>

text \<open>
  Claim C6. When the listener handles a \<open>JobRemoved\<close> signal whose job path is not in
  the table, the iteration ends normally with the state unchanged: the table, every
  channel, and the listener not waiting in a send.
\<close>

theorem listener_unknown_path:
  assumes "SignalName sg = managerInterface @ ''.JobRemoved''"
    and "Body sg = (i, job, u, result)"
    and "jobs s job = None"
  shows "listener (Some sg) s = s"
  using assms by (simp add: listener_def)

theorem listener_unknown_path_witness:
  "SignalName (job_removed ''/job/9'' ''done'') = managerInterface @ ''.JobRemoved'' \<and>
   Body (job_removed ''/job/9'' ''done'') = (1, ''/job/9'', ''a.service'', ''done'') \<and>
   jobs (run initSubscriber [Enqueue (Inr ''/job/1'')]) ''/job/9'' = None \<and>
   listener (Some (job_removed ''/job/9'' ''done'')) (run initSubscriber [Enqueue (Inr ''/job/1'')]) =
     run initSubscriber [Enqueue (Inr ''/job/1'')]"
proof -
  let ?sg = "job_removed ''/job/9'' ''done''"
  let ?s = "run initSubscriber [Enqueue (Inr ''/job/1'')]"
  have n: "SignalName ?sg = managerInterface @ ''.JobRemoved''"
    by (simp add: job_removed_def managerInterface_def)
  have b: "Body ?sg = (1, ''/job/9'', ''a.service'', ''done'')"
    by (simp add: job_removed_def)
  have j: "jobs ?s ''/job/9'' = None"
    by (simp add: initSubscriber_def startJob_def make_chan_def)
  show ?thesis using n b j listener_unknown_path [OF n b j] by blast
qed

text \<open>
  Claim C10. When the value the listener reads is nil, or a signal whose name is not
  \<open>org.freedesktop.systemd1.Manager.JobRemoved\<close>, the state is unchanged: the table
  and every channel.
\<close>

theorem listener_other_signal:
  "listener None s = s \<and>
   (SignalName sg \<noteq> managerInterface @ ''.JobRemoved'' \<longrightarrow> listener (Some sg) s = s)"
  by (simp add: listener_def)

theorem listener_other_signal_witness:
  "SignalName \<lparr>SignalName = ''org.freedesktop.systemd1.Manager.UnitNew'',
               Body = (0, ''/job/1'', ''a.service'', ''done'')\<rparr> \<noteq>
     managerInterface @ ''.JobRemoved'' \<and>
   listener (Some \<lparr>SignalName = ''org.freedesktop.systemd1.Manager.UnitNew'',
                   Body = (0, ''/job/1'', ''a.service'', ''done'')\<rparr>)
     (run initSubscriber [Enqueue (Inr ''/job/1'')]) =
     run initSubscriber [Enqueue (Inr ''/job/1'')] \<and>
   listener None (run initSubscriber [Enqueue (Inr ''/job/1'')]) =
     run initSubscriber [Enqueue (Inr ''/job/1'')]"
proof -
  let ?sg = "\<lparr>SignalName = ''org.freedesktop.systemd1.Manager.UnitNew'',
              Body = (0, ''/job/1'', ''a.service'', ''done'')\<rparr>"
  let ?s = "run initSubscriber [Enqueue (Inr ''/job/1'')]"
  have n: "SignalName ?sg \<noteq> managerInterface @ ''.JobRemoved''"
    by (simp add: managerInterface_def)
  note t = listener_other_signal [of ?s ?sg]
  show ?thesis using n t by blast
qed

section \<open>How often a channel is sent to\<close>

text \<open>
  Claim C8 says that a job channel is sent at most one value in a whole execution, so
  that the listener never waits in a send. The entry stays in the table after its
  signal, so a second \<open>JobRemoved\<close> signal with the same path sends to the same channel
  again: after the waiter has received the first value the channel has been sent two
  values; without the receive the listener waits in the second send, holding the mutex.
\<close>

theorem second_JobRemoved_counterexample:
  "sent (chans (run initSubscriber
                  [Enqueue (Inr ''/job/1''), Notify (Some (job_removed ''/job/1'' ''done'')), Await 0,
                   Notify (Some (job_removed ''/job/1'' ''failed''))]) 0) = [''done'', ''failed''] \<and>
   blocked (run initSubscriber
              [Enqueue (Inr ''/job/1''), Notify (Some (job_removed ''/job/1'' ''done'')),
               Notify (Some (job_removed ''/job/1'' ''failed''))]) = Some (0, ''failed'')"
  by (simp add: initSubscriber_def startJob_def make_chan_def listener_def send_def recv_def
      buffered_def managerInterface_def job_removed_def)

text \<open>
  Claim C8, amended. In every execution in which no two \<open>JobRemoved\<close> signals carry the
  same job path, at every point of the execution every channel has been sent at most one
  value, and the listener is never waiting in a send.
\<close>

theorem one_result_per_channel:
  assumes "distinct (removed_jobs evs)"
  shows "(\<forall>n c. length (sent (chans (run initSubscriber (take n evs)) c)) \<le> 1) \<and>
         (\<forall>n. blocked (run initSubscriber (take n evs)) = None)"
proof -
  have "once ({} \<union> set (removed_jobs (take n evs))) (run initSubscriber (take n evs))" for n
    by (rule once_run [OF once_init distinct_removed_take [OF assms]]) simp
  then show ?thesis by (simp add: once_def)
qed

theorem one_result_per_channel_witness:
  "distinct (removed_jobs
     [Enqueue (Inr ''/job/1''), Enqueue (Inr ''/job/2''),
      Notify (Some (job_removed ''/job/2'' ''failed'')), Await 1,
      Notify (Some (job_removed ''/job/1'' ''done''))]) \<and>
   sent (chans (run initSubscriber
     [Enqueue (Inr ''/job/1''), Enqueue (Inr ''/job/2''),
      Notify (Some (job_removed ''/job/2'' ''failed'')), Await 1,
      Notify (Some (job_removed ''/job/1'' ''done''))]) 0) = [''done''] \<and>
   sent (chans (run initSubscriber
     [Enqueue (Inr ''/job/1''), Enqueue (Inr ''/job/2''),
      Notify (Some (job_removed ''/job/2'' ''failed'')), Await 1,
      Notify (Some (job_removed ''/job/1'' ''done''))]) 1) = [''failed''] \<and>
   blocked (run initSubscriber
     [Enqueue (Inr ''/job/1''), Enqueue (Inr ''/job/2''),
      Notify (Some (job_removed ''/job/2'' ''failed'')), Await 1,
      Notify (Some (job_removed ''/job/1'' ''done''))]) = None"
proof -
  let ?evs = "[Enqueue (Inr ''/job/1''), Enqueue (Inr ''/job/2''),
      Notify (Some (job_removed ''/job/2'' ''failed'')), Await 1,
      Notify (Some (job_removed ''/job/1'' ''done''))]"
  have d: "distinct (removed_jobs ?evs)"
    by (simp add: job_removed_def managerInterface_def)
  note t = one_result_per_channel [OF d]
  have nb: "blocked (run initSubscriber ?evs) = None"
    using t [THEN conjunct2, rule_format, of 5] by simp
  have s0: "sent (chans (run initSubscriber ?evs) 0) = [''done'']"
    and s1: "sent (chans (run initSubscriber ?evs) 1) = [''failed'']"
    by (simp_all add: initSubscriber_def startJob_def make_chan_def listener_def send_def recv_def
      buffered_def managerInterface_def job_removed_def)
  show ?thesis using d nb s0 s1 by blast
qed

section \<open>Registering a path twice\<close>

text \<open>
  Claim C9. In every state an execution reaches, a path of the table has one channel (the
  table is a map) and no channel stands under two paths. When \<open>startJob\<close> registers a
  path that is already in the table (it runs with the mutex free, so the listener is not
  waiting in a send), the path then maps to the new channel, which is not the old one;
  and from then on, whatever happens, the old channel is under no path and is never sent
  a value.
\<close>

theorem second_registration_overwrites:
  assumes j: "jobs (run initSubscriber evs) path = Some c0"
    and nb: "blocked (run initSubscriber evs) = None"
  shows "(\<forall>p c c'. jobs (run initSubscriber evs) p = Some c \<and>
              jobs (run initSubscriber evs) p = Some c' \<longrightarrow> c = c') \<and>
         (\<forall>p q c. jobs (run initSubscriber evs) p = Some c \<and>
              jobs (run initSubscriber evs) q = Some c \<longrightarrow> p = q) \<and>
         jobs (step (run initSubscriber evs) (Enqueue (Inr path))) path =
           Some (nchans (run initSubscriber evs)) \<and>
         nchans (run initSubscriber evs) \<noteq> c0 \<and>
         (\<forall>evs' q. jobs (run (step (run initSubscriber evs) (Enqueue (Inr path))) evs') q \<noteq> Some c0) \<and>
         (\<forall>evs'. sent (chans (run (step (run initSubscriber evs) (Enqueue (Inr path))) evs') c0) =
            sent (chans (run initSubscriber evs) c0))"
proof -
  let ?s = "run initSubscriber evs"
  let ?s1 = "step ?s (Enqueue (Inr path))"
  have w: "wf ?s" by (rule wf_reachable)
  have lt: "c0 < nchans ?s" using w j unfolding wf_def by blast
  have inj: "\<And>p q c. jobs ?s p = Some c \<Longrightarrow> jobs ?s q = Some c \<Longrightarrow> p = q"
    using w unfolding wf_def by blast
  have s1: "?s1 = ?s\<lparr>chans := (chans ?s)(nchans ?s := \<lparr>cap = 1, sent = [], recvd = 0\<rparr>),
                    nchans := Suc (nchans ?s), jobs := (jobs ?s)(path \<mapsto> nchans ?s)\<rparr>"
    using nb by (simp add: startJob_Inr)
  have o: "orphan c0 ?s1"
    unfolding s1 orphan_def using lt nb inj [OF j] by auto
  have same: "sent (chans ?s1 c0) = sent (chans ?s c0)"
    unfolding s1 using lt by simp
  have reg: "jobs ?s1 path = Some (nchans ?s)"
    unfolding s1 by simp
  have later: "orphan c0 (run ?s1 evs') \<and> sent (chans (run ?s1 evs') c0) = sent (chans ?s1 c0)"
    for evs'
    by (rule orphan_run [OF o])
  show ?thesis
    using inj lt reg later same unfolding orphan_def by auto
qed

theorem second_registration_overwrites_witness:
  "jobs (run initSubscriber [Enqueue (Inr ''/job/1'')]) ''/job/1'' = Some 0 \<and>
   blocked (run initSubscriber [Enqueue (Inr ''/job/1'')]) = None \<and>
   jobs (step (run initSubscriber [Enqueue (Inr ''/job/1'')]) (Enqueue (Inr ''/job/1''))) ''/job/1'' =
     Some 1 \<and>
   sent (chans (run (step (run initSubscriber [Enqueue (Inr ''/job/1'')]) (Enqueue (Inr ''/job/1'')))
                  [Notify (Some (job_removed ''/job/1'' ''done''))]) 0) = [] \<and>
   sent (chans (run (step (run initSubscriber [Enqueue (Inr ''/job/1'')]) (Enqueue (Inr ''/job/1'')))
                  [Notify (Some (job_removed ''/job/1'' ''done''))]) 1) = [''done'']"
proof -
  let ?s = "run initSubscriber [Enqueue (Inr ''/job/1'')]"
  let ?s1 = "step ?s (Enqueue (Inr ''/job/1''))"
  let ?evs' = "[Notify (Some (job_removed ''/job/1'' ''done''))]"
  have j: "jobs ?s ''/job/1'' = Some 0"
    by (simp add: initSubscriber_def startJob_def make_chan_def)
  have nb: "blocked ?s = None"
    by (simp add: initSubscriber_def startJob_def make_chan_def)
  have n: "nchans ?s = 1"
    by (simp add: initSubscriber_def startJob_def make_chan_def)
  have c0: "sent (chans ?s 0) = []"
    by (simp add: initSubscriber_def startJob_def make_chan_def)
  note t = second_registration_overwrites [OF j nb]
  have reg: "jobs ?s1 ''/job/1'' = Some 1"
    using t [THEN conjunct2, THEN conjunct2, THEN conjunct1] n by simp
  have "sent (chans (run ?s1 ?evs') 0) = sent (chans ?s 0)"
    by (rule t [THEN conjunct2, THEN conjunct2, THEN conjunct2, THEN conjunct2, THEN conjunct2,
          rule_format])
  then have never: "sent (chans (run ?s1 ?evs') 0) = []"
    using c0 by simp
  have new: "sent (chans (run ?s1 ?evs') 1) = [''done'']"
    by (simp add: initSubscriber_def startJob_def make_chan_def listener_def send_def
      buffered_def managerInterface_def job_removed_def)
  show ?thesis using j nb reg never new by blast
qed

end
